theory Spec2Isabelle
  imports Main
begin

section \<open>Python string primitives\<close>

text \<open>
  File contents are Python \<open>str\<close> values; the model reads them as lists of 8-bit
  characters and covers ASCII text. On ASCII, \<open>str.isspace\<close> (which is also what
  \<open>\s\<close>, \<open>strip\<close> and \<open>rstrip\<close> use) accepts tab, line feed, vertical tab, form feed,
  carriage return, the four separators 0x1C..0x1F and the blank; \<open>\w\<close> accepts letters,
  digits and the underscore.
\<close>

definition is_space :: "char \<Rightarrow> bool" where
  "is_space c = (let n = (of_char c :: nat) in (9 \<le> n \<and> n \<le> 13) \<or> (28 \<le> n \<and> n \<le> 32))"

definition is_word :: "char \<Rightarrow> bool" where
  "is_word c = (let n = (of_char c :: nat) in
     (48 \<le> n \<and> n \<le> 57) \<or> (65 \<le> n \<and> n \<le> 90) \<or> n = 95 \<or> (97 \<le> n \<and> n \<le> 122))"

text \<open>\<open>s.strip()\<close>, \<open>s.rstrip()\<close> and \<open>s.rstrip(chars)\<close>.\<close>

definition rstrip_with :: "(char \<Rightarrow> bool) \<Rightarrow> string \<Rightarrow> string" where
  "rstrip_with p s = rev (dropWhile p (rev s))"

definition rstrip :: "string \<Rightarrow> string" where
  "rstrip s = rstrip_with is_space s"

definition strip :: "string \<Rightarrow> string" where
  "strip s = rstrip (dropWhile is_space s)"

text \<open>\<open>sub in s\<close> on strings: \<open>sub\<close> occurs in \<open>s\<close> as a contiguous block.\<close>

fun str_in :: "string \<Rightarrow> string \<Rightarrow> bool" where
  "str_in sub [] = (sub = [])"
| "str_in sub (c # s) = (if take (length sub) (c # s) = sub then True else str_in sub s)"

text \<open>
  \<open>s.replace(old, new)\<close>: every occurrence of \<open>old\<close>, leftmost first and without
  overlap. With an empty \<open>old\<close> Python puts \<open>new\<close> before every character and at the end.
\<close>

function replace_from :: "string \<Rightarrow> string \<Rightarrow> string \<Rightarrow> string" where
  "replace_from old new [] = []"
| "replace_from old new (c # s) =
     (if old \<noteq> [] \<and> take (length old) (c # s) = old
      then new @ replace_from old new (drop (length old) (c # s))
      else c # replace_from old new s)"
  by pat_completeness auto
termination
  by (relation "measure (\<lambda>(old, new, s). length s)") (auto simp: neq_Nil_conv)

definition replace :: "string \<Rightarrow> string \<Rightarrow> string \<Rightarrow> string" where
  "replace s old new =
     (if old = [] then new @ concat (map (\<lambda>c. c # new) s) else replace_from old new s)"

text \<open>\<open>s.split(sep)\<close> for a one-character separator, and \<open>sep.join(parts)\<close>.\<close>

fun split_char :: "char \<Rightarrow> string \<Rightarrow> string list" where
  "split_char sep [] = [[]]"
| "split_char sep (c # s) =
     (case split_char sep s of
        [] \<Rightarrow> [[c]]
      | p # ps \<Rightarrow> if c = sep then [] # p # ps else (c # p) # ps)"

fun join :: "string \<Rightarrow> string list \<Rightarrow> string" where
  "join sep [] = []"
| "join sep [p] = p"
| "join sep (p # q # ps) = p @ sep @ join sep (q # ps)"

section \<open>Regular expressions as Python's \<open>re\<close> module runs them\<close>

text \<open>
  A character set is one item of a pattern that consumes one character: a literal,
  \<open>\s\<close>, \<open>\w\<close>, the dot (every character but the line feed; none of the calls that
  use a dot passes DOTALL), a range, a bracket class or a negated bracket class.
\<close>

datatype cset = One char | Range char char | Space | Word | Dot
  | OneOf "cset list" | NoneOf "cset list"

fun in_cset :: "cset \<Rightarrow> char \<Rightarrow> bool" where
  "in_cset (One a) c = (c = a)"
| "in_cset (Range a b) c = ((of_char a :: nat) \<le> of_char c \<and> (of_char c :: nat) \<le> of_char b)"
| "in_cset Space c = is_space c"
| "in_cset Word c = is_word c"
| "in_cset Dot c = (c \<noteq> CHR 0x0A)"
| "in_cset (OneOf cs) c = list_ex (\<lambda>s. in_cset s c) cs"
| "in_cset (NoneOf cs) c = (\<not> list_ex (\<lambda>s. in_cset s c) cs)"

text \<open>
  The patterns of the program use literals, sets, sequence, alternation, the greedy and
  the lazy star and numbered groups. \<open>r+\<close> is \<open>r\<close> followed by \<open>r*\<close>, and \<open>r?\<close> is
  \<open>r\<close> or, failing that, nothing.
\<close>

datatype rx = Eps | Lit string | Sym cset | Seq rx rx | Alt rx rx
  | Star rx | StarLazy rx | Group nat rx

definition Plus :: "rx \<Rightarrow> rx" where
  "Plus r = Seq r (Star r)"

definition Opt :: "rx \<Rightarrow> rx" where
  "Opt r = Alt r Eps"

definition seqs :: "rx list \<Rightarrow> rx" where
  "seqs rs = foldr Seq rs Eps"

text \<open>
  A matcher state is the input still to read and the groups captured so far. Matching
  returns every way the pattern can match at the start of the input, in the order in
  which a backtracking matcher tries them: the head of the list is the match Python
  reports. A star stops iterating when its body consumed nothing; the number of
  iterations is then bounded by the length of the input.
\<close>

type_synonym groups = "(nat \<times> string) list"
type_synonym mstate = "string \<times> groups"

primrec star_greedy :: "(mstate \<Rightarrow> mstate list) \<Rightarrow> nat \<Rightarrow> mstate \<Rightarrow> mstate list" where
  "star_greedy f 0 st = [st]"
| "star_greedy f (Suc n) st =
     concat (map (\<lambda>st'. if length (fst st') < length (fst st) then star_greedy f n st' else [])
                 (f st)) @ [st]"

primrec star_lazy :: "(mstate \<Rightarrow> mstate list) \<Rightarrow> nat \<Rightarrow> mstate \<Rightarrow> mstate list" where
  "star_lazy f 0 st = [st]"
| "star_lazy f (Suc n) st =
     st # concat (map (\<lambda>st'. if length (fst st') < length (fst st) then star_lazy f n st' else [])
                      (f st))"

primrec rmatch :: "rx \<Rightarrow> mstate \<Rightarrow> mstate list" where
  "rmatch Eps st = [st]"
| "rmatch (Lit w) st =
     (if take (length w) (fst st) = w then [(drop (length w) (fst st), snd st)] else [])"
| "rmatch (Sym cs) st =
     (case fst st of [] \<Rightarrow> [] | c # s \<Rightarrow> if in_cset cs c then [(s, snd st)] else [])"
| "rmatch (Seq r1 r2) st = concat (map (rmatch r2) (rmatch r1 st))"
| "rmatch (Alt r1 r2) st = rmatch r1 st @ rmatch r2 st"
| "rmatch (Star r) st = star_greedy (rmatch r) (length (fst st)) st"
| "rmatch (StarLazy r) st = star_lazy (rmatch r) (length (fst st)) st"
| "rmatch (Group n r) st =
     map (\<lambda>st'. (fst st', (n, take (length (fst st) - length (fst st')) (fst st)) # snd st'))
         (rmatch r st)"

text \<open>
  \<open>m.group(n)\<close> of a group that took part in the match; a group that did not is
  \<open>None\<close>, which every use in the program turns into the empty string
  (\<open>match.group(2) or ''\<close>, a template's \<open>\2\<close>, a tuple of \<open>findall\<close>).
\<close>

definition grp :: "groups \<Rightarrow> nat \<Rightarrow> string" where
  "grp g n = (case map_of g n of None \<Rightarrow> [] | Some t \<Rightarrow> t)"

text \<open>\<open>re.match\<close>: the first match at the start of the text, as (matched text, groups).\<close>

definition re_match :: "rx \<Rightarrow> string \<Rightarrow> (string \<times> groups) option" where
  "re_match r s =
     (case rmatch r (s, []) of
        [] \<Rightarrow> None
      | st # _ \<Rightarrow> Some (take (length s - length (fst st)) s, snd st))"

text \<open>\<open>re.search\<close>: the first match at the leftmost position that has one.\<close>

fun re_search :: "rx \<Rightarrow> string \<Rightarrow> (string \<times> groups) option" where
  "re_search r [] = re_match r []"
| "re_search r (c # s) =
     (case re_match r (c # s) of None \<Rightarrow> re_search r s | Some m \<Rightarrow> Some m)"

text \<open>
  \<open>re.sub\<close> with a replacement function, and \<open>re.findall\<close> as the list of the
  matches (text and groups): both scan from the left, take the first match at the
  leftmost position, and go on after its end. After a match of no character they step
  over one character; every pattern of this program contains a literal, so its matches
  are never empty.
\<close>

function re_sub :: "rx \<Rightarrow> (string \<times> groups \<Rightarrow> string) \<Rightarrow> string \<Rightarrow> string" where
  "re_sub r f [] = (case re_match r [] of None \<Rightarrow> [] | Some m \<Rightarrow> f m)"
| "re_sub r f (c # s) =
     (case re_match r (c # s) of
        None \<Rightarrow> c # re_sub r f s
      | Some m \<Rightarrow>
          if fst m \<noteq> [] \<and> length (fst m) \<le> Suc (length s)
          then f m @ re_sub r f (drop (length (fst m)) (c # s))
          else f m @ c # re_sub r f s)"
  by pat_completeness auto
termination
  by (relation "measure (\<lambda>(r, f, s). length s)") (auto simp: neq_Nil_conv)

function re_findall :: "rx \<Rightarrow> string \<Rightarrow> (string \<times> groups) list" where
  "re_findall r [] = (case re_match r [] of None \<Rightarrow> [] | Some m \<Rightarrow> [m])"
| "re_findall r (c # s) =
     (case re_match r (c # s) of
        None \<Rightarrow> re_findall r s
      | Some m \<Rightarrow>
          if fst m \<noteq> [] \<and> length (fst m) \<le> Suc (length s)
          then m # re_findall r (drop (length (fst m)) (c # s))
          else m # re_findall r s)"
  by pat_completeness auto
termination
  by (relation "measure (\<lambda>(r, s). length s)") (auto simp: neq_Nil_conv)

section \<open>convert\_zerolog\_to\_slog.py\<close>

text \<open>The alternation \<open>(Debug|Info|Warn|Error)\<close> and the negated quote and parenthesis sets.\<close>

definition levels :: rx where
  "levels = Alt (Lit ''Debug'') (Alt (Lit ''Info'') (Alt (Lit ''Warn'') (Lit ''Error'')))"

definition not_quote :: rx where
  "not_quote = Sym (NoneOf [One (CHR 0x22)])"

definition not_close :: rx where
  "not_close = Sym (NoneOf [One (CHR '')'')])"

text \<open>
  \<^verbatim>\<open>(\s*)(\w+\.)?logger\.(Debug|Info|Warn|Error)\(\)((?:\s*\.\s*\w+\([^)]*\))*)\s*\.\s*Msg\("([^"]*)"\)\<close>
\<close>

definition chain_item :: rx where
  "chain_item = seqs [Star (Sym Space), Lit ''.'', Star (Sym Space), Plus (Sym Word),
                      Lit ''('', Star not_close, Lit '')'']"

definition pattern :: rx where
  \<open>pattern = seqs [Group 1 (Star (Sym Space)),
                   Opt (Group 2 (Seq (Plus (Sym Word)) (Lit ''.''))),
                   Lit ''logger.'', Group 3 levels, Lit ''()'',
                   Group 4 (Star chain_item),
                   Star (Sym Space), Lit ''.'', Star (Sym Space), Lit ''Msg("'',
                   Group 5 (Star not_quote), Lit ''")'']\<close>

text \<open>\<^verbatim>\<open>\.\s*(\w+)\(([^)]*)\)\<close>\<close>

definition kv_pattern :: rx where
  "kv_pattern = seqs [Lit ''.'', Star (Sym Space), Group 1 (Plus (Sym Word)), Lit ''('',
                      Group 2 (Star not_close), Lit '')'']"

text \<open>\<^verbatim>\<open>"([^"]+)",\s*(.+)\<close>, used with \<open>re.match\<close> and no flag.\<close>

definition key_value_pattern :: rx where
  \<open>key_value_pattern = seqs [Lit ''"'', Group 1 (Plus not_quote), Lit ''",'', Star (Sym Space),
                             Group 2 (Plus (Sym Dot))]\<close>

text \<open>
  One turn of the loop over \<open>kv_matches\<close>: the text appended to \<open>args\<close> for a
  (method, value) pair, if any. A method outside the \<open>if\<close>/\<open>elif\<close> chain appends nothing.
\<close>

definition keyed_arg :: "string \<Rightarrow> string list" where
  \<open>keyed_arg v =
     (case re_match key_value_pattern v of
        None \<Rightarrow> []
      | Some m \<Rightarrow> [''"'' @ grp (snd m) 1 @ ''", '' @ strip (grp (snd m) 2)])\<close>

definition arg_of :: "string \<Rightarrow> string \<Rightarrow> string list" where
  \<open>arg_of method v =
     (if method = ''Str'' then keyed_arg v
      else if method = ''Int'' then keyed_arg v
      else if method = ''Err'' then [''"error", '' @ v]
      else if method = ''Bool'' then keyed_arg v
      else if method = ''Interface'' \<or> method = ''Any'' then keyed_arg v
      else [])\<close>

text \<open>The loop \<open>for method, value in kv_matches\<close>, appending to \<open>args\<close>.\<close>

fun collect_args :: "string list \<Rightarrow> (string \<times> string) list \<Rightarrow> string list" where
  "collect_args args [] = args"
| "collect_args args ((method, v) # kvs) = collect_args (args @ arg_of method v) kvs"

definition kv_matches :: "string \<Rightarrow> (string \<times> string) list" where
  "kv_matches chain = map (\<lambda>m. (grp (snd m) 1, grp (snd m) 2)) (re_findall kv_pattern chain)"

definition render :: "string \<Rightarrow> string \<Rightarrow> string \<Rightarrow> string \<Rightarrow> string list \<Rightarrow> string" where
  \<open>render indent pre level message args =
     (if args \<noteq> []
      then (let sep = '','' @ [CHR 0x0A] @ indent @ [CHR 0x09];
                args_str = sep @ join sep args
            in indent @ pre @ ''logger.'' @ level @ ''("'' @ message @ ''"'' @ args_str @ '')'')
      else indent @ pre @ ''logger.'' @ level @ ''("'' @ message @ ''")'')\<close>

definition replace_match :: "string \<times> groups \<Rightarrow> string" where
  "replace_match m =
     (let g = snd m; indent = grp g 1; pre = grp g 2; level = grp g 3;
          chain = grp g 4; message = grp g 5
      in render indent pre level message (collect_args [] (kv_matches chain)))"

text \<open>
  \<^verbatim>\<open>(\s*)(\w+\.)?logger\.(Debug|Info|Warn|Error)\(\)\s*\.\s*Msg\("([^"]*)"\)\<close> with the
  template \<^verbatim>\<open>\1\2logger.\3("\4")\<close>.
\<close>

definition simple_pattern :: rx where
  \<open>simple_pattern = seqs [Group 1 (Star (Sym Space)),
                          Opt (Group 2 (Seq (Plus (Sym Word)) (Lit ''.''))),
                          Lit ''logger.'', Group 3 levels, Lit ''()'',
                          Star (Sym Space), Lit ''.'', Star (Sym Space), Lit ''Msg("'',
                          Group 4 (Star not_quote), Lit ''")'']\<close>

definition simple_template :: "string \<times> groups \<Rightarrow> string" where
  \<open>simple_template m =
     (let g = snd m in grp g 1 @ grp g 2 @ ''logger.'' @ grp g 3 @ ''("'' @ grp g 4 @ ''")'')\<close>

definition convert_zerolog_to_slog :: "string \<Rightarrow> string" where
  "convert_zerolog_to_slog content =
     re_sub simple_pattern simple_template (re_sub pattern replace_match content)"

section \<open>Files and standard output\<close>

text \<open>
  The scripts read and write whole files and print lines. A path names no file, a file
  that cannot be opened for reading, a file that cannot be opened for writing, or a
  regular file. The content of a file is the text that \<open>read\<close> returns. The world
  keeps the files, the log of the writes done (path and content written, oldest first)
  and the lines printed (oldest first). A failing \<open>open\<close> raises; the text of the
  exception is left abstract.
\<close>

datatype node = Missing | Unreadable | ReadOnly string | Regular string

datatype io_error = ReadFailed | WriteFailed

datatype out_line =
    Converted string             \<comment> \<open>\<^verbatim>\<open>Converted: {filepath}\<close>\<close>
  | ErrorProcessing string io_error   \<comment> \<open>\<^verbatim>\<open>Error processing {filepath}: {e}\<close>\<close>
  | ConvertedCount nat           \<comment> \<open>an empty line, then \<^verbatim>\<open>Converted {converted} files\<close>\<close>
  | NoListFile                   \<comment> \<open>\<^verbatim>\<open>No zerolog_files.txt found. Run find_zerolog_usage.sh first.\<close>\<close>
  | FixedMessagef string         \<comment> \<open>\<^verbatim>\<open>Fixed {filepath}\<close> after a check mark\<close>
  | FixedSecurity                \<comment> \<open>\<^verbatim>\<open>Fixed security test logging\<close>\<close>
  | FixedPipeline string         \<comment> \<open>\<^verbatim>\<open>Fixed {os.path.basename(filepath)}\<close>\<close>
  | Done                         \<comment> \<open>\<^verbatim>\<open>Done!\<close>\<close>

record world =
  files :: "string \<Rightarrow> node"
  writes :: "(string \<times> string) list"
  out :: "out_line list"

definition read_file :: "world \<Rightarrow> string \<Rightarrow> io_error + string" where
  "read_file w path =
     (case files w path of
        Missing \<Rightarrow> Inl ReadFailed
      | Unreadable \<Rightarrow> Inl ReadFailed
      | ReadOnly c \<Rightarrow> Inr c
      | Regular c \<Rightarrow> Inr c)"

definition write_file :: "world \<Rightarrow> string \<Rightarrow> string \<Rightarrow> io_error + world" where
  "write_file w path c =
     (case files w path of
        Unreadable \<Rightarrow> Inl WriteFailed
      | ReadOnly _ \<Rightarrow> Inl WriteFailed
      | _ \<Rightarrow> Inr (w\<lparr>files := (files w)(path := Regular c), writes := writes w @ [(path, c)]\<rparr>))"

definition print :: "world \<Rightarrow> out_line \<Rightarrow> world" where
  "print w l = w\<lparr>out := out w @ [l]\<rparr>"

text \<open>
  \<open>process_file\<close>: every exception raised inside is caught, printed and turned into
  \<open>False\<close>.
\<close>

definition process_file :: "world \<Rightarrow> string \<Rightarrow> world \<times> bool" where
  "process_file w filepath =
     (case read_file w filepath of
        Inl e \<Rightarrow> (print w (ErrorProcessing filepath e), False)
      | Inr content \<Rightarrow>
          if \<not> str_in ''logger.'' content \<or> \<not> str_in ''.Msg('' content then (w, False)
          else (let new_content = convert_zerolog_to_slog content
                in if new_content \<noteq> content
                   then (case write_file w filepath new_content of
                           Inl e \<Rightarrow> (print w (ErrorProcessing filepath e), False)
                         | Inr w' \<Rightarrow> (print w' (Converted filepath), True))
                   else (w, False)))"




section \<open>fix\_security\_test\_logging.py\<close>

text \<open>
  Two substitutions of a literal text by a literal text, then the file is written back
  whatever the outcome. Nothing catches a failing \<open>open\<close>.
\<close>

definition security_path :: string where
  "security_path = ''/home/tng/workspace/container-kit/pkg/core/security/secret_discovery_test.go''"

definition fix_security_content :: "string \<Rightarrow> string" where
  "fix_security_content content =
     re_sub (Lit ''zerolog.New(os.Stdout)'')
            (\<lambda>m. ''slog.New(slog.NewTextHandler(os.Stdout, nil))'')
       (re_sub (Lit ''logger := zerolog.Nop()'')
               (\<lambda>m. ''logger := slog.New(slog.NewTextHandler(os.Stdout, nil))'')
               content)"

definition fix_security_test_logging :: "world \<Rightarrow> io_error + world" where
  "fix_security_test_logging w =
     (case read_file w security_path of
        Inl e \<Rightarrow> Inl e
      | Inr content \<Rightarrow>
          (case write_file w security_path (fix_security_content content) of
             Inl e \<Rightarrow> Inl e
           | Inr w' \<Rightarrow> Inr (print w' FixedSecurity)))"

section \<open>scripts/fix\_messagef\_simple.py\<close>

text \<open>
  The three substitutions of "Pattern 1", all with the template
  \<^verbatim>\<open>.Message("\1").Cause(\2)\<close>:
  \<^verbatim>\<open>\.Messagef\("([^"]*?):\s*%w"\s*,\s*([a-zA-Z0-9_]+)\)\<close>,
  \<^verbatim>\<open>\.Messagef\("([^"]*?)\s+%w"\s*,\s*([a-zA-Z0-9_]+)\)\<close> and
  \<^verbatim>\<open>\.Messagef\("([^"]*?)%w"\s*,\s*([a-zA-Z0-9_]+)\)\<close>.
\<close>

definition ident_set :: cset where
  "ident_set = OneOf [Range (CHR ''a'') (CHR ''z''), Range (CHR ''A'') (CHR ''Z''),
                      Range (CHR ''0'') (CHR ''9''), One (CHR ''_'')]"

definition ident_char :: rx where
  "ident_char = Sym ident_set"

definition cause_tail :: "rx list" where
  \<open>cause_tail = [Lit ''%w"'', Star (Sym Space), Lit '','', Star (Sym Space),
                 Group 2 (Plus ident_char), Lit '')'']\<close>

definition messagef_colon :: rx where
  \<open>messagef_colon = seqs ([Lit ''.Messagef("'', Group 1 (StarLazy not_quote), Lit '':'',
                            Star (Sym Space)] @ cause_tail)\<close>

definition messagef_space :: rx where
  \<open>messagef_space = seqs ([Lit ''.Messagef("'', Group 1 (StarLazy not_quote),
                            Plus (Sym Space)] @ cause_tail)\<close>

definition messagef_bare :: rx where
  \<open>messagef_bare = seqs ([Lit ''.Messagef("'', Group 1 (StarLazy not_quote)] @ cause_tail)\<close>

definition cause_template :: "string \<times> groups \<Rightarrow> string" where
  \<open>cause_template m = ''.Message("'' @ grp (snd m) 1 @ ''").Cause('' @ grp (snd m) 2 @ '')''\<close>

definition pattern1 :: "string \<Rightarrow> string" where
  "pattern1 content =
     re_sub messagef_bare cause_template
       (re_sub messagef_space cause_template
          (re_sub messagef_colon cause_template content))"

text \<open>
  The loop over the characters of \<open>args_str\<close>: the state is \<open>paren_depth\<close>,
  \<open>current_arg\<close> and \<open>args_parts\<close>. After the loop a non-empty \<open>current_arg\<close> is the
  last part.
\<close>

fun split_loop :: "int \<Rightarrow> string \<Rightarrow> string list \<Rightarrow> string \<Rightarrow> string \<times> string list" where
  "split_loop paren_depth current_arg args_parts [] = (current_arg, args_parts)"
| "split_loop paren_depth current_arg args_parts (c # s) =
     (if c = CHR ''('' \<or> c = CHR ''{'' \<or> c = CHR ''[''
      then split_loop (paren_depth + 1) (current_arg @ [c]) args_parts s
      else if c = CHR '')'' \<or> c = CHR ''}'' \<or> c = CHR '']''
      then split_loop (paren_depth - 1) (current_arg @ [c]) args_parts s
      else if c = CHR '','' \<and> paren_depth = 0
      then split_loop paren_depth [] (args_parts @ [strip current_arg]) s
      else split_loop paren_depth (current_arg @ [c]) args_parts s)"

definition split_args :: "string \<Rightarrow> string list" where
  "split_args args_str =
     (case split_loop 0 [] [] args_str of
        (current_arg, args_parts) \<Rightarrow>
          if current_arg \<noteq> [] then args_parts @ [strip current_arg] else args_parts)"

text \<open>
  \<^verbatim>\<open>\.Messagef\("([^"]+)"\s*,(.+)\)\<close> is searched in a line, and \<^verbatim>\<open>%[^%\s]\<close> finds the
  format verbs.
\<close>

definition messagef_call :: rx where
  \<open>messagef_call = seqs [Lit ''.Messagef("'', Group 1 (Plus not_quote), Lit ''"'',
                         Star (Sym Space), Lit '','', Group 2 (Plus (Sym Dot)), Lit '')'']\<close>

definition format_verb :: rx where
  "format_verb = Seq (Lit ''%'') (Sym (NoneOf [One (CHR ''%''), Space]))"

text \<open>
  The body of the loop over the lines. \<open>args_parts[-1]\<close> is read only when
  \<open>args_parts\<close> has at least as many elements as there are verbs, which are two or more.
\<close>

definition fix_line :: "string \<Rightarrow> string" where
  \<open>fix_line line =
     (if str_in ''Messagef'' line \<and> str_in ''%w'' line \<and> \<not> str_in ''.Cause('' line
      then (case re_search messagef_call line of
              None \<Rightarrow> line
            | Some m \<Rightarrow>
                (let format_str = grp (snd m) 1;
                     args_str = strip (grp (snd m) 2);
                     format_verbs = re_findall format_verb format_str
                 in if str_in ''%w'' format_str \<and> length format_verbs > 1
                    then (let new_format =
                                replace (replace (replace format_str '': %w'' []) '' %w'' []) ''%w'' [];
                              args_parts = split_args args_str
                          in if length args_parts \<ge> length format_verbs
                             then (let error_arg = rstrip_with (\<lambda>c. c = CHR '')'') (last args_parts);
                                       other_args = butlast args_parts
                                   in if other_args \<noteq> []
                                      then replace line
                                             (''.Messagef("'' @ format_str @ ''", '' @ args_str)
                                             (''.Message(fmt.Sprintf("'' @ new_format @ ''", ''
                                                @ join '', '' other_args @ '')).Cause('' @ error_arg)
                                      else replace line
                                             (''.Messagef("'' @ format_str @ ''", '' @ args_str)
                                             (''.Message("'' @ new_format @ ''").Cause('' @ error_arg))
                             else line)
                    else line))
      else line)\<close>

text \<open>The rewrite of the content: "Pattern 1", then every line through the loop.\<close>

definition rewrite_messagef :: "string \<Rightarrow> string" where
  "rewrite_messagef content =
     join [CHR 0x0A] (map fix_line (split_char (CHR 0x0A) (pattern1 content)))"

text \<open>
  \<^verbatim>\<open>import\s*\(([^)]+)\)\<close> finds the import block, and \<open>"fmt"\<close> is added to the block
  found, if there is one.
\<close>

definition import_block :: rx where
  "import_block = seqs [Lit ''import'', Star (Sym Space), Lit ''('', Group 1 (Plus not_close),
                        Lit '')'']"

definition add_fmt_import :: "string \<Rightarrow> string" where
  \<open>add_fmt_import content =
     (if str_in ''fmt.Sprintf'' content \<and> \<not> str_in ''import "fmt"'' content
      then (case re_search import_block content of
              None \<Rightarrow> content
            | Some import_match \<Rightarrow>
                (let imports = grp (snd import_match) 1
                 in if \<not> str_in ''"fmt"'' imports
                    then (let new_imports = rstrip imports @ [CHR 0x0A, CHR 0x09] @ ''"fmt"'' @ [CHR 0x0A]
                          in replace content (fst import_match) (''import ('' @ new_imports @ '')''))
                    else content))
      else content)\<close>

text \<open>
  \<open>fix_messagef_in_file\<close> catches nothing: a failing \<open>open\<close> leaves the function as an
  exception. The result is the world and the value returned.
\<close>

definition fix_messagef_in_file :: "world \<Rightarrow> string \<Rightarrow> io_error + world \<times> bool" where
  "fix_messagef_in_file w filepath =
     (case read_file w filepath of
        Inl e \<Rightarrow> Inl e
      | Inr original_content \<Rightarrow>
          (let content = rewrite_messagef original_content
           in if content \<noteq> original_content
              then (case write_file w filepath (add_fmt_import content) of
                      Inl e \<Rightarrow> Inl e
                    | Inr w' \<Rightarrow> Inr (print w' (FixedMessagef filepath), True))
              else Inr (w, False)))"

section \<open>fix\_pipeline\_logging.py\<close>




text \<open>
  \<^verbatim>\<open>\.Str\("([^"]+)",\s*([^)]+)\)\<close>, and the same for \<open>Int\<close>, \<open>Bool\<close> and \<open>Dur\<close>;
  \<^verbatim>\<open>\.Err\(([^)]+)\)\<close>.
\<close>

definition keyed_setter :: "string \<Rightarrow> rx" where
  \<open>keyed_setter name =
     seqs [Lit (''.'' @ name @ ''("''), Group 1 (Plus not_quote), Lit ''",'', Star (Sym Space),
           Group 2 (Plus not_close), Lit '')'']\<close>

definition err_setter :: rx where
  "err_setter = seqs [Lit ''.Err('', Group 1 (Plus not_close), Lit '')'']"








section \<open>fix\_pipeline\_logging\_v2.py\<close>

text \<open>
  \<open>f.readlines()\<close> gives the lines with their line feed. A line that matches
  \<^verbatim>\<open>\.logger\.(Info|Debug|Warn|Error)\(\)\s*\.\<close> starts a statement; lines are added to
  it until the last one added matches \<^verbatim>\<open>\.Msg(f)?\(\<close> or the file ends. The statement,
  joined and stripped, is matched with
  \<^verbatim>\<open>(\s*)(.+\.logger\.(Info|Debug|Warn|Error))\(\)\<close> and searched for
  \<^verbatim>\<open>\.Msg(f)?\(([^)]+)\)\<close>; when both succeed the lines of the statement become one
  line, otherwise the first line is kept and the loop goes on with the next one. The pairs
  are found in the statement with the patterns of \<open>fix_pipeline_logging\<close>.
\<close>

fun readlines :: "string \<Rightarrow> string list" where
  "readlines [] = []"
| "readlines (c # s) =
     (if c = CHR 0x0A then [c] # readlines s
      else (case readlines s of [] \<Rightarrow> [[c]] | l # ls \<Rightarrow> (c # l) # ls))"

definition v2_levels :: rx where
  "v2_levels = Alt (Lit ''Info'') (Alt (Lit ''Debug'') (Alt (Lit ''Warn'') (Lit ''Error'')))"

definition chain_start :: rx where
  "chain_start = seqs [Lit ''.logger.'', Group 1 v2_levels, Lit ''()'', Star (Sym Space), Lit ''.'']"

definition msg_start :: rx where
  "msg_start = seqs [Lit ''.Msg'', Opt (Group 1 (Lit ''f'')), Lit ''('']"

definition logger_call_pattern :: rx where
  "logger_call_pattern =
     seqs [Group 1 (Star (Sym Space)),
           Group 2 (seqs [Plus (Sym Dot), Lit ''.logger.'', Group 3 v2_levels]), Lit ''()'']"

definition msg_call :: rx where
  "msg_call = seqs [Lit ''.Msg'', Opt (Group 1 (Lit ''f'')), Lit ''('', Group 2 (Plus not_close), Lit '')'']"

fun collect_statement :: "string list \<Rightarrow> string list \<Rightarrow> string list \<times> string list" where
  "collect_statement statement_lines [] = (statement_lines, [])"
| "collect_statement statement_lines (l # ls) =
     (if re_search msg_start (last statement_lines) \<noteq> None then (statement_lines, l # ls)
      else collect_statement (statement_lines @ [l]) ls)"

definition keyed_pairs :: "string \<Rightarrow> string \<Rightarrow> (string \<times> string) list" where
  "keyed_pairs name full_statement =
     map (\<lambda>m. (grp (snd m) 1, grp (snd m) 2)) (re_findall (keyed_setter name) full_statement)"

definition v2_pairs :: "string \<Rightarrow> (string \<times> string) list" where
  "v2_pairs full_statement =
     keyed_pairs ''Str'' full_statement @ keyed_pairs ''Int'' full_statement
     @ keyed_pairs ''Bool'' full_statement @ keyed_pairs ''Dur'' full_statement
     @ map (\<lambda>m. (''error'', grp (snd m) 1)) (re_findall err_setter full_statement)"

definition new_statement :: "string \<Rightarrow> string option" where
  \<open>new_statement full_statement =
     (case re_match logger_call_pattern full_statement of
        None \<Rightarrow> None
      | Some logger_match \<Rightarrow>
          (case re_search msg_call full_statement of
             None \<Rightarrow> None
           | Some msg_match \<Rightarrow>
               (let indent = grp (snd logger_match) 1;
                    logger_call = grp (snd logger_match) 2;
                    message = grp (snd msg_match) 2;
                    pairs = v2_pairs full_statement
                in if pairs \<noteq> []
                   then Some (indent @ logger_call @ ''('' @ message @ '', ''
                              @ join '', '' (map (\<lambda>(k, v). ''"'' @ k @ ''", '' @ v) pairs)
                              @ '')'' @ [CHR 0x0A])
                   else Some (indent @ logger_call @ ''('' @ message @ '')'' @ [CHR 0x0A]))))\<close>

function rewrite_lines :: "string list \<Rightarrow> string list" where
  "rewrite_lines [] = []"
| "rewrite_lines (line # rest) =
     (if re_search chain_start line \<noteq> None
      then (case collect_statement [line] rest of
              (statement_lines, rest') \<Rightarrow>
                (case new_statement (strip (concat statement_lines)) of
                   None \<Rightarrow> line # rewrite_lines rest
                 | Some s \<Rightarrow> s # rewrite_lines rest'))
      else line # rewrite_lines rest)"
  by pat_completeness auto
termination
proof (relation "measure length")
  fix line rest statement_lines rest'
  assume a: "(statement_lines, rest') = collect_statement [line] rest"
  have "length (snd (collect_statement st ls)) \<le> length ls" for st ls
    by (induction st ls rule: collect_statement.induct) auto
  then have "length (snd (collect_statement [line] rest)) \<le> length rest" .
  moreover have "rest' = snd (collect_statement [line] rest)" using a by (metis snd_conv)
  ultimately show "(rest', line # rest) \<in> measure length" by simp
qed auto

text \<open>
  The script processes four files of fixed names. For each it reads the lines, rewrites
  them, writes them back and prints a line; nothing catches a failing \<open>open\<close>, which ends
  the script.
\<close>

definition v2_files :: "string list" where
  "v2_files =
     [''/home/tng/workspace/container-kit/pkg/mcp/application/orchestration/pipeline/atomic_framework.go'',
      ''/home/tng/workspace/container-kit/pkg/mcp/application/orchestration/pipeline/monitoring_integration.go'',
      ''/home/tng/workspace/container-kit/pkg/mcp/application/orchestration/pipeline/basic_validator.go'',
      ''/home/tng/workspace/container-kit/pkg/mcp/application/orchestration/pipeline/cache_service.go'']"

definition basename :: "string \<Rightarrow> string" where
  "basename path = rev (takeWhile (\<lambda>c. c \<noteq> CHR ''/'') (rev path))"

definition fix_v2_file :: "world \<Rightarrow> string \<Rightarrow> io_error + world" where
  "fix_v2_file w filepath =
     (case read_file w filepath of
        Inl e \<Rightarrow> Inl e
      | Inr content \<Rightarrow>
          (case write_file w filepath (concat (rewrite_lines (readlines content))) of
             Inl e \<Rightarrow> Inl e
           | Inr w' \<Rightarrow> Inr (print w' (FixedPipeline (basename filepath)))))"

fun fix_v2_files :: "world \<Rightarrow> string list \<Rightarrow> io_error + world" where
  "fix_v2_files w [] = Inr (print w Done)"
| "fix_v2_files w (filepath # rest) =
     (case fix_v2_file w filepath of Inl e \<Rightarrow> Inl e | Inr w' \<Rightarrow> fix_v2_files w' rest)"

definition fix_pipeline_logging_v2 :: "world \<Rightarrow> io_error + world" where
  "fix_pipeline_logging_v2 w = fix_v2_files w v2_files"

section \<open>Notions used to state the properties\<close>

text \<open>
  The bracket depth as \<open>split_loop\<close> counts it: one up at an opening round, curly or
  square bracket, one down at a closing one, whatever the text around. \<open>depth_after\<close> is
  the depth after a text, \<open>no_top_comma\<close> says that no comma of the text is met at depth
  zero, and \<open>pieces\<close> cuts a text at the commas met at depth zero.
\<close>

definition bracket_step :: "int \<Rightarrow> char \<Rightarrow> int" where
  "bracket_step d c =
     (if c = CHR ''('' \<or> c = CHR ''{'' \<or> c = CHR ''['' then d + 1
      else if c = CHR '')'' \<or> c = CHR ''}'' \<or> c = CHR '']'' then d - 1
      else d)"

fun depth_after :: "int \<Rightarrow> string \<Rightarrow> int" where
  "depth_after d [] = d"
| "depth_after d (c # s) = depth_after (bracket_step d c) s"

fun no_top_comma :: "int \<Rightarrow> string \<Rightarrow> bool" where
  "no_top_comma d [] = True"
| "no_top_comma d (c # s) =
     (if c = CHR '','' \<and> d = 0 then False else no_top_comma (bracket_step d c) s)"

fun pieces :: "int \<Rightarrow> string \<Rightarrow> string list" where
  "pieces d [] = [[]]"
| "pieces d (c # s) =
     (if c = CHR '','' \<and> d = 0 then [] # pieces d s
      else (case pieces (bracket_step d c) s of [] \<Rightarrow> [[c]] | p # ps \<Rightarrow> (c # p) # ps))"







text \<open>What follows the first group in \<open>messagef_colon\<close>.\<close>

definition colon_tail :: rx where
  "colon_tail = seqs ([Lit '':'', Star (Sym Space)] @ cause_tail)"

section \<open>Texts and worlds used in the examples\<close>





definition go_file_single_import :: string where
  \<open>go_file_single_import =
     ''package p'' @ [CHR 0x0A] @ ''import "os"'' @ [CHR 0x0A]
     @ ''func f() error { return b.Messagef("open %s: %w", n, err) }'' @ [CHR 0x0A]\<close>

definition world_with :: "string \<Rightarrow> string \<Rightarrow> world" where
  "world_with path content =
     \<lparr>files = (\<lambda>p. if p = path then Regular content else Missing), writes = [], out = []\<rparr>"

section \<open>Properties of the conversion of one chain\<close>













section \<open>Properties of the Messagef rewrite\<close>

lemma pieces_nonempty: "pieces d s \<noteq> []"
  by (induction d s rule: pieces.induct) (auto split: list.splits)

lemma join_cons: "ps \<noteq> [] \<Longrightarrow> join sep (p # ps) = p @ sep @ join sep ps"
  by (cases ps) simp_all

lemma join_pieces: "join '','' (pieces d s) = s"
proof (induction d s rule: pieces.induct)
  case (1 d) show ?case by simp
next
  case (2 d c s)
  show ?case
  proof (cases "c = CHR '','' \<and> d = 0")
    case True
    then show ?thesis using 2 by (simp add: join_cons pieces_nonempty)
  next
    case False
    obtain p ps where e: "pieces (bracket_step d c) s = p # ps"
      using pieces_nonempty by (cases "pieces (bracket_step d c) s") auto
    have "join '','' (p # ps) = s" using 2(2) False e by simp
    then have "join '','' ((c # p) # ps) = c # s" by (cases ps) auto
    then show ?thesis using False e by auto
  qed
qed

lemma pieces_shape:
  "no_top_comma d (hd (pieces d s))
   \<and> list_all (no_top_comma 0) (tl (pieces d s))
   \<and> (tl (pieces d s) \<noteq> [] \<longrightarrow> depth_after d (hd (pieces d s)) = 0)
   \<and> list_all (\<lambda>p. depth_after 0 p = 0) (butlast (tl (pieces d s)))"
proof (induction d s rule: pieces.induct)
  case (1 d) show ?case by simp
next
  case (2 d c s)
  show ?case
  proof (cases "c = CHR '','' \<and> d = 0")
    case True
    then show ?thesis using 2(1) pieces_nonempty [of 0 s]
      by (cases "pieces 0 s") (auto)
  next
    case False
    obtain p ps where e: "pieces (bracket_step d c) s = p # ps"
      using pieces_nonempty by (cases "pieces (bracket_step d c) s") auto
    show ?thesis using 2(2) False e by auto
  qed
qed

lemma split_loop_pieces:
  "split_loop d cur parts s =
     (if tl (pieces d s) = [] then (cur @ hd (pieces d s), parts)
      else (last (pieces d s),
            parts @ strip (cur @ hd (pieces d s)) # map strip (butlast (tl (pieces d s)))))"
proof (induction d cur parts s rule: split_loop.induct)
  case (1 d cur parts) show ?case by simp
next
  case (2 d cur parts c s)
  obtain p ps where e: "pieces (bracket_step d c) s = p # ps"
    using pieces_nonempty by (cases "pieces (bracket_step d c) s") auto
  obtain q qs where e0: "pieces d s = q # qs"
    using pieces_nonempty by (cases "pieces d s") auto
  show ?case
  proof (cases "c = CHR '','' \<and> d = 0")
    case True
    then have "split_loop d cur parts (c # s) = split_loop 0 [] (parts @ [strip cur]) s" by simp
    also have "\<dots> = (if qs = [] then (q, parts @ [strip cur])
                        else (last (q # qs), (parts @ [strip cur]) @ strip q # map strip (butlast qs)))"
      using 2(3) True e0 by simp
    finally show ?thesis using True e0 by (cases qs) auto
  next
    case False
    have "split_loop d cur parts (c # s) = split_loop (bracket_step d c) (cur @ [c]) parts s"
      using False by (auto simp: bracket_step_def)
    also have "\<dots> = (if ps = [] then ((cur @ [c]) @ p, parts)
                        else (last (p # ps), parts @ strip ((cur @ [c]) @ p) # map strip (butlast ps)))"
    proof -
      consider (o) "c = CHR ''('' \<or> c = CHR ''{'' \<or> c = CHR ''[''"
        | (cl) "\<not> (c = CHR ''('' \<or> c = CHR ''{'' \<or> c = CHR ''['')" "c = CHR '')'' \<or> c = CHR ''}'' \<or> c = CHR '']''"
        | (n) "\<not> (c = CHR ''('' \<or> c = CHR ''{'' \<or> c = CHR ''['')" "\<not> (c = CHR '')'' \<or> c = CHR ''}'' \<or> c = CHR '']'')"
        by blast
      then show ?thesis
      proof cases
        case o then show ?thesis using 2(1) e by (simp add: bracket_step_def)
      next
        case cl then show ?thesis using 2(2) e by (simp add: bracket_step_def)
      next
        case n then show ?thesis using 2(4) [OF n(1) n(2)] False e by (simp add: bracket_step_def)
      qed
    qed
    finally show ?thesis using False e by auto
  qed
qed

text \<open>
  C3, as stated, fails in the splitting loop of \<open>fix_messagef_in_file\<close>: the comma inside
  the string literal \<open>"a,b"\<close> is taken as an argument boundary.
\<close>

theorem comma_in_string_literal_splits:
  \<open>split_args ''"a,b", err'' = [''"a'', ''b"'', ''err'']\<close>
  by code_simp

text \<open>
  C3, amended. The splitting is aware of bracket nesting and not of string literals. The
  argument text is cut at commas only: putting the commas back between the pieces gives
  the text again. Every cut is at bracket depth zero (each piece before a cut closes all
  the brackets it opens), and no comma met at depth zero is left inside a piece, so that a
  comma at another depth is never a boundary, and a comma at depth zero always is, inside
  a string literal or not. The parts are the pieces stripped, without the last piece when
  it is empty.
\<close>

theorem split_at_depth_zero:
  "\<exists>ps. ps \<noteq> [] \<and> join '','' ps = s
        \<and> list_all (\<lambda>p. depth_after 0 p = 0) (butlast ps)
        \<and> list_all (no_top_comma 0) ps
        \<and> split_args s = map strip (if last ps = [] then butlast ps else ps)"
proof -
  obtain p ps where e: "pieces 0 s = p # ps"
    using pieces_nonempty by (cases "pieces 0 s") auto
  have sh: "no_top_comma 0 p" "list_all (no_top_comma 0) ps"
      "ps \<noteq> [] \<longrightarrow> depth_after 0 p = 0" "list_all (\<lambda>p. depth_after 0 p = 0) (butlast ps)"
    using pieces_shape [of 0 s] e by simp_all
  have sp: "split_args s = map strip (if last (p # ps) = [] then butlast (p # ps) else p # ps)"
    unfolding split_args_def split_loop_pieces e
    by (cases ps rule: rev_cases) (auto simp: butlast_append)
  show ?thesis
    apply (rule exI [of _ "p # ps"])
    using sh sp join_pieces [of 0 s] e by auto
qed




text \<open>
  C10 fails on a Go file with a single-line import: the rewrite brings in
  \<open>fmt.Sprintf\<close>, no parenthesised import block is found, and the content written has no
  \<open>"fmt"\<close> anywhere.
\<close>

theorem single_import_left_without_fmt:
  \<open>rewrite_messagef go_file_single_import \<noteq> go_file_single_import
   \<and> str_in ''fmt.Sprintf'' (add_fmt_import (rewrite_messagef go_file_single_import))
   \<and> \<not> str_in ''"fmt"'' (add_fmt_import (rewrite_messagef go_file_single_import))\<close>
  by code_simp

theorem single_import_file_written:
  \<open>(case fix_messagef_in_file (world_with ''f.go'' go_file_single_import) ''f.go'' of
      Inl e \<Rightarrow> False
    | Inr (w, changed) \<Rightarrow>
        changed \<and> (case files w ''f.go'' of
                      Regular c \<Rightarrow> str_in ''fmt.Sprintf'' c \<and> \<not> str_in ''"fmt"'' c
                    | _ \<Rightarrow> False))\<close>
  by code_simp

section \<open>Properties of the drivers\<close>





text \<open>
  C4, as stated, fails in \<open>fix_security_test_logging\<close>: for a file that no substitution
  changes, the same content is written back.
\<close>

theorem security_script_writes_unchanged_content:
  \<open>(case fix_security_test_logging (world_with security_path ''package security'') of
      Inl e \<Rightarrow> False
    | Inr w \<Rightarrow> fix_security_content ''package security'' = ''package security''
             \<and> writes w = [(security_path, ''package security'')])\<close>
  by code_simp

text \<open>
  C4, amended. \<open>process_file\<close> writes a regular file back exactly when its content
  holds \<open>logger.\<close> and \<open>.Msg(\<close> and the conversion changes it; otherwise nothing is
  written and the files are as before. \<open>fix_security_test_logging\<close> and
  \<open>fix_pipeline_logging_v2\<close> write a file back after every run, changed or not.
\<close>

theorem write_only_on_change:
  "(files w p = Regular c \<longrightarrow>
      writes (fst (process_file w p))
        = (if str_in ''logger.'' c \<and> str_in ''.Msg('' c \<and> convert_zerolog_to_slog c \<noteq> c
           then writes w @ [(p, convert_zerolog_to_slog c)] else writes w)
      \<and> files (fst (process_file w p))
        = (if str_in ''logger.'' c \<and> str_in ''.Msg('' c \<and> convert_zerolog_to_slog c \<noteq> c
           then (files w)(p := Regular (convert_zerolog_to_slog c)) else files w))
   \<and> (files w security_path = Regular c \<longrightarrow>
      (\<exists>w'. fix_security_test_logging w = Inr w'
           \<and> writes w' = writes w @ [(security_path, fix_security_content c)]))
   \<and> (files w p = Regular c \<longrightarrow>
      (\<exists>w'. fix_v2_file w p = Inr w'
           \<and> writes w' = writes w @ [(p, concat (rewrite_lines (readlines c)))]))"
  by (auto simp: process_file_def read_file_def write_file_def print_def Let_def
                 fix_security_test_logging_def fix_v2_file_def)

theorem write_only_on_change_witness:
  \<open>files (world_with ''a.go'' ''logger.Info().Msg("x")'') ''a.go'' = Regular ''logger.Info().Msg("x")''
   \<and> writes (fst (process_file (world_with ''a.go'' ''logger.Info().Msg("x")'') ''a.go''))
       = [(''a.go'', ''logger.Info("x")'')]
   \<and> files (world_with security_path ''package security'') security_path = Regular ''package security''
   \<and> (\<exists>w'. fix_security_test_logging (world_with security_path ''package security'') = Inr w'
           \<and> writes w' = [(security_path, ''package security'')])
   \<and> (\<exists>w'. fix_v2_file (world_with security_path ''package security'') security_path = Inr w'
           \<and> writes w' = [(security_path, ''package security'')])\<close>
proof -
  have a: \<open>files (world_with ''a.go'' ''logger.Info().Msg("x")'') ''a.go'' = Regular ''logger.Info().Msg("x")''\<close>
    by (simp add: world_with_def)
  have b: "files (world_with security_path ''package security'') security_path = Regular ''package security''"
    by (simp add: world_with_def)
  have c: \<open>str_in ''logger.'' ''logger.Info().Msg("x")'' \<and> str_in ''.Msg('' ''logger.Info().Msg("x")''
           \<and> convert_zerolog_to_slog ''logger.Info().Msg("x")'' = ''logger.Info("x")''\<close>
    by code_simp
  have d: "fix_security_content ''package security'' = ''package security''"
    by code_simp
  have d2: "concat (rewrite_lines (readlines ''package security'')) = ''package security''"
    by code_simp
  have e: "writes (world_with x y) = []" for x y by (simp add: world_with_def)
  from write_only_on_change [of "world_with ''a.go'' (''logger.Info().Msg('' @ [CHR 0x22] @ ''x'' @ [CHR 0x22] @ '')'')" "''a.go''" "''logger.Info().Msg('' @ [CHR 0x22] @ ''x'' @ [CHR 0x22] @ '')''"]
       write_only_on_change [of "world_with security_path ''package security''" security_path "''package security''"]
       a b c d d2 e
  show ?thesis by simp
qed




section \<open>Properties of a second pass\<close>

lemma str_in_iff: "str_in sub s \<longleftrightarrow> (\<exists>a b. s = a @ sub @ b)"
proof (induction s)
  case Nil
  show ?case by auto
next
  case (Cons c s)
  show ?case
  proof
    assume "str_in sub (c # s)"
    then consider "take (length sub) (c # s) = sub" | "str_in sub s"
      by (auto split: if_splits)
    then show "\<exists>a b. c # s = a @ sub @ b"
    proof cases
      case 1
      then have "c # s = [] @ sub @ drop (length sub) (c # s)"
        by (metis append_Nil append_take_drop_id)
      then show ?thesis by blast
    next
      case 2
      then obtain a b where "s = a @ sub @ b" using Cons.IH by blast
      then have "c # s = (c # a) @ sub @ b" by simp
      then show ?thesis by blast
    qed
  next
    assume "\<exists>a b. c # s = a @ sub @ b"
    then obtain a b where e: "c # s = a @ sub @ b" by blast
    show "str_in sub (c # s)"
    proof (cases a)
      case Nil
      then have "take (length sub) (c # s) = sub" using e by (metis append_Nil append_eq_conv_conj)
      then show ?thesis by simp
    next
      case (Cons x a')
      then have "s = a' @ sub @ b" using e by simp
      then have "str_in sub s" using Cons.IH by blast
      then show ?thesis by simp
    qed
  qed
qed

lemma str_in_drop: "str_in sub (drop i s) \<Longrightarrow> str_in sub s"
proof -
  assume "str_in sub (drop i s)"
  then obtain a b where "drop i s = a @ sub @ b" using str_in_iff by blast
  then have "s = (take i s @ a) @ sub @ b" by (metis append_assoc append_take_drop_id)
  then show ?thesis using str_in_iff by blast
qed

lemma star_greedy_suffix:
  assumes "\<And>st st'. st' \<in> set (f st) \<Longrightarrow> \<exists>w. fst st = w @ fst st'"
  shows "st' \<in> set (star_greedy f n st) \<Longrightarrow> \<exists>w. fst st = w @ fst st'"
proof (induction n arbitrary: st)
  case 0
  then show ?case by simp
next
  case (Suc n)
  then consider "st' = st"
    | mid where "mid \<in> set (f st)" "st' \<in> set (star_greedy f n mid)"
    by (auto split: if_splits)
  then show ?case
  proof cases
    case 1 then show ?thesis by simp
  next
    case 2
    obtain w1 where "fst st = w1 @ fst mid" using assms 2(1) by blast
    moreover obtain w2 where "fst mid = w2 @ fst st'" using Suc.IH 2(2) by blast
    ultimately have "fst st = (w1 @ w2) @ fst st'" by simp
    then show ?thesis by blast
  qed
qed

lemma star_lazy_suffix:
  assumes "\<And>st st'. st' \<in> set (f st) \<Longrightarrow> \<exists>w. fst st = w @ fst st'"
  shows "st' \<in> set (star_lazy f n st) \<Longrightarrow> \<exists>w. fst st = w @ fst st'"
proof (induction n arbitrary: st)
  case 0
  then show ?case by simp
next
  case (Suc n)
  then consider "st' = st"
    | mid where "mid \<in> set (f st)" "st' \<in> set (star_lazy f n mid)"
    by (auto split: if_splits)
  then show ?case
  proof cases
    case 1 then show ?thesis by simp
  next
    case 2
    obtain w1 where "fst st = w1 @ fst mid" using assms 2(1) by blast
    moreover obtain w2 where "fst mid = w2 @ fst st'" using Suc.IH 2(2) by blast
    ultimately have "fst st = (w1 @ w2) @ fst st'" by simp
    then show ?thesis by blast
  qed
qed

lemma seq_mem:
  "st' \<in> set (rmatch (Seq r1 r2) st) \<longleftrightarrow> (\<exists>mid \<in> set (rmatch r1 st). st' \<in> set (rmatch r2 mid))"
  by simp

lemma alt_mem:
  "st' \<in> set (rmatch (Alt r1 r2) st) \<longleftrightarrow> st' \<in> set (rmatch r1 st) \<or> st' \<in> set (rmatch r2 st)"
  by simp

lemma group_mem:
  "st' \<in> set (rmatch (Group n r) st) \<Longrightarrow> \<exists>m \<in> set (rmatch r st). fst st' = fst m"
  by force

lemma lit_mem: "st' \<in> set (rmatch (Lit w) st) \<Longrightarrow> fst st = w @ fst st'"
proof -
  assume "st' \<in> set (rmatch (Lit w) st)"
  then have "take (length w) (fst st) = w" "fst st' = drop (length w) (fst st)"
    by (simp_all split: if_splits)
  then show ?thesis by (metis append_take_drop_id)
qed

lemma rmatch_suffix: "st' \<in> set (rmatch r st) \<Longrightarrow> \<exists>w. fst st = w @ fst st'"
proof (induction r arbitrary: st st')
  case Eps
  then show ?case by simp
next
  case (Lit w)
  then have "fst st = w @ fst st'" by (rule lit_mem)
  then show ?case by blast
next
  case (Sym cs)
  then show ?case by (cases "fst st") (auto split: if_splits)
next
  case (Seq r1 r2)
  then obtain mid where m: "mid \<in> set (rmatch r1 st)" "st' \<in> set (rmatch r2 mid)"
    unfolding seq_mem by blast
  obtain w1 where "fst st = w1 @ fst mid" using Seq.IH(1) m(1) by blast
  moreover obtain w2 where "fst mid = w2 @ fst st'" using Seq.IH(2) m(2) by blast
  ultimately have "fst st = (w1 @ w2) @ fst st'" by simp
  then show ?case by blast
next
  case (Alt r1 r2)
  then show ?case unfolding alt_mem by blast
next
  case (Star r)
  then show ?case using star_greedy_suffix [of "rmatch r"] by simp
next
  case (StarLazy r)
  then show ?case using star_lazy_suffix [of "rmatch r"] by simp
next
  case (Group n r)
  then obtain m where "m \<in> set (rmatch r st)" "fst st' = fst m" using group_mem by blast
  then show ?case using Group.IH by metis
qed

lemma rmatch_Lit_prefix: "st' \<in> set (rmatch (Seq (Lit w) r) st) \<Longrightarrow> \<exists>b. fst st = w @ b"
  unfolding seq_mem using lit_mem by blast



lemma re_match_None_iff: "re_match r s = None \<longleftrightarrow> rmatch r (s, []) = []"
  by (simp add: re_match_def split: list.splits)


lemma re_sub_no_match:
  "(\<And>i. re_match r (drop i s) = None) \<Longrightarrow> re_sub r f s = s"
proof (induction s)
  case Nil
  then show ?case using Nil [of 0] by simp
next
  case (Cons c s)
  have 0: "re_match r (c # s) = None" using Cons.prems [of 0] by simp
  have "\<And>i. re_match r (drop i s) = None" using Cons.prems [of "Suc i" for i] by simp
  then have "re_sub r f s = s" using Cons.IH by blast
  then show ?case using 0 by simp
qed


lemma seqs_Cons: "seqs (r # rs) = Seq r (seqs rs)"
  by (simp add: seqs_def)

lemma lit_first_no_match:
  assumes "\<not> str_in w s"
  shows "re_match (seqs (Lit w # rs)) (drop i s) = None"
proof (rule ccontr)
  assume "re_match (seqs (Lit w # rs)) (drop i s) \<noteq> None"
  then obtain st' where "st' \<in> set (rmatch (Seq (Lit w) (seqs rs)) (drop i s, []))"
    unfolding re_match_None_iff seqs_Cons
    by (cases "rmatch (Seq (Lit w) (seqs rs)) (drop i s, [])") auto
  then obtain b where "fst (drop i s, []::groups) = w @ b" using rmatch_Lit_prefix by blast
  then have "drop i s = [] @ w @ b" by simp
  then have "str_in w (drop i s)" using str_in_iff by blast
  then show False using assms str_in_drop by blast
qed


lemma split_char_nonempty: "split_char c s \<noteq> []"
  by (induction s) (auto split: list.splits)

lemma join_split_char: "join [c] (split_char c s) = s"
proof (induction s)
  case Nil
  show ?case by simp
next
  case (Cons x s)
  obtain p ps where e: "split_char c s = p # ps"
    using split_char_nonempty by (cases "split_char c s") auto
  have j: "join [c] (p # ps) = s" using Cons e by simp
  show ?case
  proof (cases "x = c")
    case True
    then show ?thesis using e j by simp
  next
    case False
    have "join [c] ((x # p) # ps) = x # join [c] (p # ps)" by (cases ps) simp_all
    then show ?thesis using False e j by simp
  qed
qed

lemma split_char_part: "l \<in> set (split_char c s) \<Longrightarrow> \<exists>a b. s = a @ l @ b"
proof (induction s arbitrary: l)
  case Nil
  then show ?case by simp
next
  case (Cons x s)
  obtain p ps where e: "split_char c s = p # ps"
    using split_char_nonempty by (cases "split_char c s") auto
  show ?case
  proof (cases "x = c")
    case True
    then have "l = [] \<or> l \<in> set (split_char c s)" using Cons.prems e by auto
    then show ?thesis
    proof
      assume "l = []"
      then have "x # s = [] @ l @ (x # s)" by simp
      then show ?thesis by blast
    next
      assume "l \<in> set (split_char c s)"
      then obtain a b where "s = a @ l @ b" using Cons.IH by blast
      then have "x # s = (x # a) @ l @ b" by simp
      then show ?thesis by blast
    qed
  next
    case False
    then have "l = x # p \<or> l \<in> set ps" using Cons.prems e by auto
    then show ?thesis
    proof
      assume l: "l = x # p"
      have "p \<in> set (split_char c s)" using e by simp
      then obtain a b where ab: "s = a @ p @ b" using Cons.IH by blast
      have "join [c] (p # ps) = s" using join_split_char [of c s] e by simp
      then obtain b' where "s = p @ b'" by (cases ps) auto
      then have "x # s = [] @ l @ b'" using l by simp
      then show ?thesis by blast
    next
      assume "l \<in> set ps"
      then have "l \<in> set (split_char c s)" using e by simp
      then obtain a b where "s = a @ l @ b" using Cons.IH by blast
      then have "x # s = (x # a) @ l @ b" by simp
      then show ?thesis by blast
    qed
  qed
qed








section \<open>The single error-wrap verb\<close>

text \<open>
  The first match of a pattern is the head of the list of its matches. The lemmas below
  find it for a sequence, a literal, a group, a greedy star or plus of a character set,
  and a lazy star of a character set whose shorter candidates all fail.
\<close>

lemma first_seq:
  assumes "\<exists>xs. rmatch r1 st = x # xs" and "\<exists>ys. rmatch r2 x = y # ys"
  shows "\<exists>zs. rmatch (Seq r1 r2) st = y # zs"
  using assms by auto

lemma first_seq_skip:
  assumes "rmatch r1 st = pre @ x # xs" and "\<And>p. p \<in> set pre \<Longrightarrow> rmatch r2 p = []"
    and "\<exists>ys. rmatch r2 x = y # ys"
  shows "\<exists>zs. rmatch (Seq r1 r2) st = y # zs"
proof -
  have c: "concat (map (rmatch r2) pre) = []" using assms(2) by (induction pre) auto
  obtain ys where y: "rmatch r2 x = y # ys" using assms(3) by blast
  have "rmatch (Seq r1 r2) st
      = concat (map (rmatch r2) pre) @ rmatch r2 x @ concat (map (rmatch r2) xs)"
    by (simp add: assms(1))
  then have "rmatch (Seq r1 r2) st = y # (ys @ concat (map (rmatch r2) xs))"
    unfolding c y by simp
  then show ?thesis by blast
qed

lemma sym_step:
  "rmatch (Sym cs) (c # s, g) = (if in_cset cs c then [(s, g)] else [])"
  "rmatch (Sym cs) ([], g) = []"
  by simp_all

lemma first_lit:
  assumes "take (length w) s = w"
  shows "\<exists>zs. rmatch (Lit w) (s, g) = (drop (length w) s, g) # zs"
  using assms by simp

lemma first_group:
  assumes "\<exists>zs. rmatch r (s, g) = (s', g') # zs"
  shows "\<exists>zs. rmatch (Group n r) (s, g) = (s', (n, take (length s - length s') s) # g') # zs"
  using assms by auto

lemma star_greedy_sym_first:
  "length s \<le> n \<Longrightarrow>
   \<exists>zs. star_greedy (rmatch (Sym cs)) n (s, g) = (dropWhile (in_cset cs) s, g) # zs"
proof (induction n arbitrary: s)
  case 0
  then show ?case by simp
next
  case (Suc n)
  show ?case
  proof (cases s)
    case Nil
    then show ?thesis by (simp add: sym_step del: rmatch.simps)
  next
    case (Cons c s')
    show ?thesis
    proof (cases "in_cset cs c")
      case True
      have "length s' \<le> n" using Suc.prems Cons by simp
      then obtain zs where "star_greedy (rmatch (Sym cs)) n (s', g) = (dropWhile (in_cset cs) s', g) # zs"
        using Suc.IH by blast
      then show ?thesis using Cons True by (simp add: sym_step del: rmatch.simps)
    next
      case False
      then show ?thesis using Cons by (simp add: sym_step del: rmatch.simps)
    qed
  qed
qed

lemma first_star_sym:
  "\<exists>zs. rmatch (Star (Sym cs)) (s, g) = (dropWhile (in_cset cs) s, g) # zs"
  using star_greedy_sym_first [of s "length s" cs g] by (simp del: rmatch.simps add: rmatch.simps(6))

lemma first_plus_sym:
  assumes "in_cset cs c"
  shows "\<exists>zs. rmatch (Plus (Sym cs)) (c # s, g) = (dropWhile (in_cset cs) s, g) # zs"
proof -
  have 1: "\<exists>xs. rmatch (Sym cs) (c # s, g) = (s, g) # xs" using assms by (simp add: sym_step del: rmatch.simps)
  show ?thesis unfolding Plus_def by (rule first_seq [OF 1 first_star_sym])
qed

lemma star_lazy_sym_list:
  "length s \<le> n \<Longrightarrow>
   star_lazy (rmatch (Sym cs)) n (s, g)
     = map (\<lambda>k. (drop k s, g)) [0..<Suc (length (takeWhile (in_cset cs) s))]"
proof (induction n arbitrary: s)
  case 0
  then show ?case by simp
next
  case (Suc n)
  show ?case
  proof (cases s)
    case Nil
    then show ?thesis by (simp add: sym_step del: rmatch.simps)
  next
    case (Cons c s')
    show ?thesis
    proof (cases "in_cset cs c")
      case True
      define K where "K = length (takeWhile (in_cset cs) s')"
      have "length s' \<le> n" using Suc.prems Cons by simp
      then have ih: "star_lazy (rmatch (Sym cs)) n (s', g) = map (\<lambda>k. (drop k s', g)) [0..<Suc K]"
        using Suc.IH K_def by blast
      have u: "[0..<Suc (Suc K)] = 0 # map Suc [0..<Suc K]"
        by (subst upt_conv_Cons [OF zero_less_Suc]) (simp only: map_Suc_upt)
      have "star_lazy (rmatch (Sym cs)) (Suc n) (c # s', g)
          = (c # s', g) # star_lazy (rmatch (Sym cs)) n (s', g)"
        using True by (simp add: sym_step del: rmatch.simps)
      also have "\<dots> = map (\<lambda>k. (drop k (c # s'), g)) [0..<Suc (Suc K)]"
        unfolding ih u by (simp add: comp_def del: upt_Suc)
      finally show ?thesis using Cons True K_def by (simp del: upt_Suc rmatch.simps)
    next
      case False
      then show ?thesis using Cons by (simp add: sym_step del: rmatch.simps)
    qed
  qed
qed

lemma group_lazy_list:
  "rmatch (Group n (StarLazy (Sym cs))) (s, g)
     = map (\<lambda>k. (drop k s, (n, take k s) # g)) [0..<Suc (length (takeWhile (in_cset cs) s))]"
proof -
  have "rmatch (Group n (StarLazy (Sym cs))) (s, g)
      = map (\<lambda>st'. (fst st', (n, take (length s - length (fst st')) s) # snd st'))
            (star_lazy (rmatch (Sym cs)) (length s) (s, g))"
    by (simp del: rmatch.simps add: rmatch.simps(7,8))
  also have "\<dots> = map (\<lambda>k. (drop k s, (n, take (length s - length (drop k s)) s) # g))
                       [0..<Suc (length (takeWhile (in_cset cs) s))]"
    by (simp add: star_lazy_sym_list comp_def del: upt_Suc rmatch.simps)
  also have "\<dots> = map (\<lambda>k. (drop k s, (n, take k s) # g))
                       [0..<Suc (length (takeWhile (in_cset cs) s))]"
  proof (rule map_cong [OF refl])
    fix k assume "k \<in> set [0..<Suc (length (takeWhile (in_cset cs) s))]"
    then have "k \<le> length s" using length_takeWhile_le [of "in_cset cs" s] by auto
    then show "(drop k s, (n, take (length s - length (drop k s)) s) # g) = (drop k s, (n, take k s) # g)"
      by simp
  qed
  finally show ?thesis .
qed

lemma first_lazy_group:
  assumes "list_all (in_cset cs) p"
    and "\<And>k. k < length p \<Longrightarrow> rmatch r2 (drop k p @ rest, (n, take k p) # g) = []"
    and "\<exists>ys. rmatch r2 (rest, (n, p) # g) = y # ys"
  shows "\<exists>zs. rmatch (Seq (Group n (StarLazy (Sym cs))) r2) (p @ rest, g) = y # zs"
proof -
  define K where "K = length (takeWhile (in_cset cs) (p @ rest))"
  have "takeWhile (in_cset cs) (p @ rest) = p @ takeWhile (in_cset cs) rest"
    using assms(1) by (simp add: takeWhile_append2 list_all_iff)
  then have K: "length p \<le> K" by (simp add: K_def)
  have "[0..<Suc K] = [0..<length p] @ [length p..<Suc K]"
    using K by (metis le_Suc_eq le_add_diff_inverse upt_add_eq_append zero_le)
  also have "[length p..<Suc K] = length p # [Suc (length p)..<Suc K]"
    using K by (simp add: upt_conv_Cons del: upt_Suc)
  finally have "rmatch (Group n (StarLazy (Sym cs))) (p @ rest, g)
      = map (\<lambda>k. (drop k (p @ rest), (n, take k (p @ rest)) # g)) [0..<length p]
        @ (rest, (n, p) # g)
        # map (\<lambda>k. (drop k (p @ rest), (n, take k (p @ rest)) # g)) [Suc (length p)..<Suc K]"
    unfolding group_lazy_list K_def [symmetric] by (simp del: upt_Suc)
  moreover have "rmatch r2 q = []"
    if "q \<in> set (map (\<lambda>k. (drop k (p @ rest), (n, take k (p @ rest)) # g)) [0..<length p])" for q
  proof -
    from that obtain k where "k < length p" "q = (drop k (p @ rest), (n, take k (p @ rest)) # g)"
      by auto
    then show ?thesis using assms(2) [of k] by simp
  qed
  ultimately show ?thesis using assms(3) by (rule first_seq_skip)
qed

lemma star_greedy_sym_members:
  "st' \<in> set (star_greedy (rmatch (Sym cs)) n (s, g)) \<Longrightarrow>
   \<exists>ws. s = ws @ fst st' \<and> list_all (in_cset cs) ws"
proof (induction n arbitrary: s)
  case 0
  then show ?case by simp
next
  case (Suc n)
  show ?case
  proof (cases s)
    case Nil
    then show ?thesis using Suc.prems by (simp add: sym_step del: rmatch.simps)
  next
    case (Cons c s')
    show ?thesis
    proof (cases "in_cset cs c")
      case True
      then have "st' \<in> set (star_greedy (rmatch (Sym cs)) n (s', g)) \<or> st' = (s, g)"
        using Suc.prems Cons by (auto simp add: sym_step simp del: rmatch.simps)
      then show ?thesis
      proof
        assume "st' \<in> set (star_greedy (rmatch (Sym cs)) n (s', g))"
        then obtain ws where "s' = ws @ fst st'" "list_all (in_cset cs) ws" using Suc.IH by blast
        then have "s = (c # ws) @ fst st' \<and> list_all (in_cset cs) (c # ws)"
          using Cons True by simp
        then show ?thesis by blast
      next
        assume "st' = (s, g)"
        then have "s = [] @ fst st' \<and> list_all (in_cset cs) []" by simp
        then show ?thesis by blast
      qed
    next
      case False
      then have "st' = (s, g)" using Suc.prems Cons by (simp add: sym_step del: rmatch.simps)
      then have "s = [] @ fst st' \<and> list_all (in_cset cs) []" by simp
      then show ?thesis by blast
    qed
  qed
qed

lemma star_sym_members:
  "st' \<in> set (rmatch (Star (Sym cs)) st) \<Longrightarrow> \<exists>ws. fst st = ws @ fst st' \<and> list_all (in_cset cs) ws"
  using star_greedy_sym_members [of st' cs "length (fst st)" "fst st" "snd st"]
  by (simp del: rmatch.simps add: rmatch.simps(6))

lemma space_chars:
  "is_space (CHR '' '')" "\<not> is_space (CHR ''%'')" "\<not> is_space (CHR '','')" "\<not> is_space (CHR '':'')"
  by (simp_all add: is_space_def)

lemma ident_chars:
  "in_cset ident_set c \<Longrightarrow> \<not> is_space c"
  "in_cset ident_set c \<Longrightarrow> c \<noteq> CHR ''%''"
  "\<not> in_cset ident_set (CHR '')'')"
  by (auto simp: ident_set_def is_space_def)

lemma colon_tail_fails:
  assumes "u \<noteq> []" "CHR ''%'' \<notin> set u"
  shows "rmatch colon_tail (u @ CHR '':'' # r, g) = []"
proof (rule ccontr)
  assume "rmatch colon_tail (u @ CHR '':'' # r, g) \<noteq> []"
  then obtain st' where "st' \<in> set (rmatch colon_tail (u @ CHR '':'' # r, g))"
    by (cases "rmatch colon_tail (u @ CHR '':'' # r, g)") auto
  then have "st' \<in> set (rmatch (Seq (Lit '':'') (Seq (Star (Sym Space)) (Seq (Lit [CHR ''%'', CHR ''w'', CHR 0x22]) (seqs (tl cause_tail))))) (u @ CHR '':'' # r, g))"
    by (simp add: colon_tail_def cause_tail_def seqs_def del: rmatch.simps)
  then obtain m1 m2 m3 where m: "m1 \<in> set (rmatch (Lit '':'') (u @ CHR '':'' # r, g))"
      "m2 \<in> set (rmatch (Star (Sym Space)) m1)"
      "m3 \<in> set (rmatch (Lit [CHR ''%'', CHR ''w'', CHR 0x22]) m2)"
    unfolding seq_mem by blast
  have 1: "u @ CHR '':'' # r = '':'' @ fst m1" using lit_mem [OF m(1)] by simp
  obtain ws where 2: "fst m1 = ws @ fst m2" "list_all is_space ws"
    using star_sym_members [OF m(2)] by (auto simp: list_all_iff)
  have 3: "fst m2 = [CHR ''%'', CHR ''w'', CHR 0x22] @ fst m3" using lit_mem [OF m(3)] .
  obtain u' where u: "u = CHR '':'' # u'" using 1 assms(1) by (cases u) auto
  have e: "u' @ CHR '':'' # r = ws @ CHR ''%'' # (CHR ''w'' # CHR 0x22 # fst m3)"
    using 1 2(1) 3 u by simp
  have n: "CHR ''%'' \<notin> set u'" using assms(2) u by simp
  from e obtain v where "(u' = ws @ v \<and> v @ CHR '':'' # r = CHR ''%'' # (CHR ''w'' # CHR 0x22 # fst m3))
      \<or> (u' @ v = ws \<and> CHR '':'' # r = v @ CHR ''%'' # (CHR ''w'' # CHR 0x22 # fst m3))"
    unfolding append_eq_append_conv2 by blast
  then show False
  proof
    assume a: "u' = ws @ v \<and> v @ CHR '':'' # r = CHR ''%'' # (CHR ''w'' # CHR 0x22 # fst m3)"
    show False
    proof (cases v)
      case Nil then show ?thesis using a by simp
    next
      case (Cons x v') then show ?thesis using a n by auto
    qed
  next
    assume a: "u' @ v = ws \<and> CHR '':'' # r = v @ CHR ''%'' # (CHR ''w'' # CHR 0x22 # fst m3)"
    show False
    proof (cases v)
      case Nil then show ?thesis using a by simp
    next
      case (Cons x v')
      then have "x = CHR '':''" "x \<in> set ws" using a by auto
      then show ?thesis using 2(2) space_chars(4) by (auto simp: list_all_iff)
    qed
  qed
qed

lemma cause_tail_first:
  assumes "e \<noteq> []" "list_all (in_cset ident_set) e"
  shows "\<exists>ys. rmatch (seqs cause_tail) ([CHR ''%'', CHR ''w'', CHR 0x22] @ '', '' @ e @ '')'', g)
               = ([], (2, e) # g) # ys"
proof -
  obtain c e' where e: "e = c # e'" using assms(1) by (cases e) auto
  have c: "in_cset ident_set c" and e': "\<And>x. x \<in> set e' \<Longrightarrow> in_cset ident_set x"
    using assms(2) e by (auto simp: list_all_iff)
  have s8: "\<exists>ys. rmatch Eps ([], (2, e) # g) = ([], (2, e) # g) # ys" by simp
  have s7: "\<exists>ys. rmatch (Lit '')'') ('')'', (2, e) # g) = ([], (2, e) # g) # ys" by simp
  have "dropWhile (in_cset ident_set) (e' @ '')'') = '')''"
    using e' ident_chars(3) by (simp add: dropWhile_append2)
  then have "\<exists>ys. rmatch (Plus (Sym ident_set)) (c # e' @ '')'', g) = ('')'', g) # ys"
    using first_plus_sym [OF c, of "e' @ '')''" g] by simp
  then have "\<exists>ys. rmatch (Group 2 (Plus (Sym ident_set))) (c # e' @ '')'', g)
      = ('')'', (2, take (length (c # e' @ '')'') - length '')'') (c # e' @ '')'')) # g) # ys"
    by (rule first_group)
  then have s6: "\<exists>ys. rmatch (Group 2 (Plus ident_char)) (e @ '')'', g) = ('')'', (2, e) # g) # ys"
    using e by (simp add: ident_char_def del: rmatch.simps)
  have "dropWhile (in_cset Space) ('' '' @ e @ '')'') = e @ '')''"
    using e ident_chars(1) [OF c] space_chars by simp
  then have s5: "\<exists>ys. rmatch (Star (Sym Space)) ('' '' @ e @ '')'', g) = (e @ '')'', g) # ys"
    using first_star_sym [of Space "'' '' @ e @ '')''" g] by simp
  have s4: "\<exists>ys. rmatch (Lit '','') ('', '' @ e @ '')'', g) = ('' '' @ e @ '')'', g) # ys" by simp
  have "dropWhile (in_cset Space) ('', '' @ e @ '')'') = '', '' @ e @ '')''"
    using space_chars by simp
  then have s3: "\<exists>ys. rmatch (Star (Sym Space)) ('', '' @ e @ '')'', g) = ('', '' @ e @ '')'', g) # ys"
    using first_star_sym [of Space "'', '' @ e @ '')''" g] by simp
  have s2: "\<exists>ys. rmatch (Lit [CHR ''%'', CHR ''w'', CHR 0x22]) ([CHR ''%'', CHR ''w'', CHR 0x22] @ '', '' @ e @ '')'', g)
      = ('', '' @ e @ '')'', g) # ys" by simp
  have "\<exists>ys. rmatch (Seq (Lit [CHR ''%'', CHR ''w'', CHR 0x22]) (Seq (Star (Sym Space)) (Seq (Lit '','')
        (Seq (Star (Sym Space)) (Seq (Group 2 (Plus ident_char)) (Seq (Lit '')'') Eps))))))
      ([CHR ''%'', CHR ''w'', CHR 0x22] @ '', '' @ e @ '')'', g) = ([], (2, e) # g) # ys"
    by (rule first_seq [OF s2 first_seq [OF s3 first_seq [OF s4 first_seq [OF s5 first_seq [OF s6 first_seq [OF s7 s8]]]]]])
  then show ?thesis by (simp add: cause_tail_def seqs_def del: rmatch.simps)
qed

lemma colon_tail_first:
  assumes "e \<noteq> []" "list_all (in_cset ident_set) e"
  shows "\<exists>ys. rmatch colon_tail ('': '' @ [CHR ''%'', CHR ''w'', CHR 0x22] @ '', '' @ e @ '')'', g)
               = ([], (2, e) # g) # ys"
proof -
  have s1: "\<exists>ys. rmatch (Lit '':'') ('': '' @ [CHR ''%'', CHR ''w'', CHR 0x22] @ '', '' @ e @ '')'', g)
      = ('' '' @ [CHR ''%'', CHR ''w'', CHR 0x22] @ '', '' @ e @ '')'', g) # ys" by simp
  have "dropWhile (in_cset Space) ('' '' @ [CHR ''%'', CHR ''w'', CHR 0x22] @ '', '' @ e @ '')'')
      = [CHR ''%'', CHR ''w'', CHR 0x22] @ '', '' @ e @ '')''"
    using space_chars by simp
  then have s2: "\<exists>ys. rmatch (Star (Sym Space)) ('' '' @ [CHR ''%'', CHR ''w'', CHR 0x22] @ '', '' @ e @ '')'', g)
      = ([CHR ''%'', CHR ''w'', CHR 0x22] @ '', '' @ e @ '')'', g) # ys"
    using first_star_sym [of Space "'' '' @ [CHR ''%'', CHR ''w'', CHR 0x22] @ '', '' @ e @ '')''" g] by simp
  have "\<exists>ys. rmatch (Seq (Lit '':'') (Seq (Star (Sym Space)) (seqs cause_tail)))
      ('': '' @ [CHR ''%'', CHR ''w'', CHR 0x22] @ '', '' @ e @ '')'', g) = ([], (2, e) # g) # ys"
    by (rule first_seq [OF s1 first_seq [OF s2 cause_tail_first [OF assms]]])
  then show ?thesis by (simp add: colon_tail_def seqs_def del: rmatch.simps)
qed

lemma messagef_colon_unfold:
  \<open>messagef_colon = Seq (Lit ''.Messagef("'') (Seq (Group 1 (StarLazy (Sym (NoneOf [One (CHR 0x22)])))) colon_tail)\<close>
  by (simp add: messagef_colon_def colon_tail_def seqs_def not_quote_def)

lemma messagef_colon_first:
  assumes "CHR 0x22 \<notin> set msg" "CHR ''%'' \<notin> set msg"
    and "e \<noteq> []" "list_all (in_cset ident_set) e"
  shows \<open>re_match messagef_colon (''.Messagef("'' @ msg @ '': %w", '' @ e @ '')'')
           = Some (''.Messagef("'' @ msg @ '': %w", '' @ e @ '')'', [(2, e), (1, msg)])\<close>
proof -
  define rest where "rest = '': '' @ [CHR ''%'', CHR ''w'', CHR 0x22] @ '', '' @ e @ '')''"
  define t0 where \<open>t0 = ''.Messagef("'' @ msg @ rest\<close>
  have s1: \<open>\<exists>ys. rmatch (Lit ''.Messagef("'') (t0, []) = (msg @ rest, []) # ys\<close>
    by (simp add: t0_def)
  have a: "list_all (in_cset (NoneOf [One (CHR 0x22)])) msg"
    using assms(1) by (auto simp: list_all_iff)
  have b: "rmatch colon_tail (drop k msg @ rest, (1, take k msg) # []) = []" if k: "k < length msg" for k
  proof -
    have "drop k msg \<noteq> []" using k by simp
    moreover have "CHR ''%'' \<notin> set (drop k msg)" using assms(2) in_set_dropD by fast
    ultimately show ?thesis unfolding rest_def
      using colon_tail_fails [of "drop k msg" _ "[(1, take k msg)]"] by simp
  qed
  have c: "\<exists>ys. rmatch colon_tail (rest, (1, msg) # []) = ([], [(2, e), (1, msg)]) # ys"
    unfolding rest_def using colon_tail_first [OF assms(3,4)] by blast
  have s2: "\<exists>ys. rmatch (Seq (Group 1 (StarLazy (Sym (NoneOf [One (CHR 0x22)])))) colon_tail) (msg @ rest, [])
      = ([], [(2, e), (1, msg)]) # ys"
    by (rule first_lazy_group [OF a b c])
  obtain zs where "rmatch messagef_colon (t0, []) = ([], [(2, e), (1, msg)]) # zs"
    unfolding messagef_colon_unfold using first_seq [OF s1 s2] by blast
  then have "re_match messagef_colon t0 = Some (t0, [(2, e), (1, msg)])"
    by (simp add: re_match_def)
  then show ?thesis by (simp add: t0_def rest_def)
qed

lemma lit_blocked:
  assumes "q \<notin> set x" "x \<noteq> []" "q \<notin> set p"
  shows "take (length (p @ [q])) (x @ p @ q # r) \<noteq> p @ [q]"
proof
  assume eq: "take (length (p @ [q])) (x @ p @ q # r) = p @ [q]"
  have "(take (length (p @ [q])) (x @ p @ q # r)) ! length p = (x @ p @ q # r) ! length p"
    by (rule nth_take) simp
  then have at: "(x @ p @ q # r) ! length p = q" unfolding eq by simp
  show False
  proof (cases "length p < length x")
    case True
    then have "x ! length p = q" using at by (simp add: nth_append)
    then show ?thesis using assms(1) True nth_mem by fastforce
  next
    case False
    then have "length p - length x < length p" using assms(2) by (cases x) auto
    then have "p ! (length p - length x) = q" using at False by (simp add: nth_append)
    then show ?thesis using assms(3) \<open>length p - length x < length p\<close> nth_mem by fastforce
  qed
qed

lemma no_match_before_call:
  assumes "CHR 0x22 \<notin> set b" "i < length b"
  shows \<open>re_match (seqs (Lit ''.Messagef("'' # rs)) (drop i b @ ''.Messagef("'' @ r) = None\<close>
proof -
  have "take (length (''.Messagef('' @ [CHR 0x22])) (drop i b @ ''.Messagef('' @ CHR 0x22 # r)
      \<noteq> ''.Messagef('' @ [CHR 0x22]"
  proof (rule lit_blocked)
    show "CHR 0x22 \<notin> set (drop i b)" using assms(1) in_set_dropD by fast
    show "drop i b \<noteq> []" using assms(2) by simp
    show "CHR 0x22 \<notin> set ''.Messagef(''" by simp
  qed
  then have \<open>rmatch (Lit ''.Messagef("'') (drop i b @ ''.Messagef("'' @ r, []) = []\<close>
    by simp
  then show ?thesis by (simp add: re_match_def seqs_Cons del: rmatch.simps add: rmatch.simps(4))
qed

lemma re_sub_skip:
  "(\<And>i. i < length b \<Longrightarrow> re_match r (drop i b @ t) = None) \<Longrightarrow> re_sub r f (b @ t) = b @ re_sub r f t"
proof (induction b)
  case Nil
  show ?case by simp
next
  case (Cons c b)
  have 0: "re_match r (c # b @ t) = None" using Cons.prems [of 0] by simp
  have "\<And>i. i < length b \<Longrightarrow> re_match r (drop i b @ t) = None"
    using Cons.prems [of "Suc i" for i] by simp
  then have "re_sub r f (b @ t) = b @ re_sub r f t" using Cons.IH by blast
  then show ?case using 0 by simp
qed

lemma re_sub_whole:
  assumes "t \<noteq> []" "re_match r t = Some (t, g)" "re_match r [] = None"
  shows "re_sub r f t = f (t, g)"
proof -
  obtain c s where t: "t = c # s" using assms(1) by (cases t) auto
  show ?thesis using assms(2,3) unfolding t by simp
qed

lemma colon_substitution:
  assumes "CHR 0x22 \<notin> set b"
    and "CHR 0x22 \<notin> set msg" "CHR ''%'' \<notin> set msg"
    and "e \<noteq> []" "list_all (in_cset ident_set) e"
  shows \<open>re_sub messagef_colon cause_template (b @ ''.Messagef("'' @ msg @ '': %w", '' @ e @ '')'')
           = b @ ''.Message("'' @ msg @ ''").Cause('' @ e @ '')''\<close>
proof -
  have emp: \<open>\<not> str_in ''.Messagef("'' []\<close> by simp
  have mc: \<open>messagef_colon = seqs (Lit ''.Messagef("'' # Group 1 (StarLazy not_quote) # Lit '':''
      # Star (Sym Space) # cause_tail)\<close>
    by (simp add: messagef_colon_def)
  have 0: "re_match messagef_colon [] = None"
    unfolding mc using lit_first_no_match [OF emp, of _ 0] by simp
  have 1: \<open>re_sub messagef_colon cause_template (''.Messagef("'' @ msg @ '': %w", '' @ e @ '')'')
      = cause_template (''.Messagef("'' @ msg @ '': %w", '' @ e @ '')'', [(2, e), (1, msg)])\<close>
    by (rule re_sub_whole [OF _ messagef_colon_first [OF assms(2-5)] 0]) simp
  have 2: \<open>re_sub messagef_colon cause_template (b @ ''.Messagef("'' @ msg @ '': %w", '' @ e @ '')'')
      = b @ re_sub messagef_colon cause_template (''.Messagef("'' @ msg @ '': %w", '' @ e @ '')'')\<close>
    unfolding mc
    by (rule re_sub_skip) (rule no_match_before_call [OF assms(1)])
  show ?thesis unfolding 2 1 by (simp add: cause_template_def grp_def)
qed

lemma through_seq:
  assumes "\<And>st st'. st' \<in> set (rmatch r2 st) \<Longrightarrow> c \<in> set (fst st)"
    and "st' \<in> set (rmatch (Seq r1 r2) st)"
  shows "c \<in> set (fst st)"
proof -
  obtain mid where m: "mid \<in> set (rmatch r1 st)" "st' \<in> set (rmatch r2 mid)"
    using assms(2) unfolding seq_mem by blast
  obtain w where "fst st = w @ fst mid" using rmatch_suffix [OF m(1)] by blast
  then show ?thesis using assms(1) [OF m(2)] by simp
qed

lemma cause_tail_percent:
  assumes "st' \<in> set (rmatch (seqs cause_tail) st)"
  shows "CHR ''%'' \<in> set (fst st)"
proof -
  have "st' \<in> set (rmatch (Seq (Lit [CHR ''%'', CHR ''w'', CHR 0x22]) (seqs (tl cause_tail))) st)"
    using assms by (simp add: cause_tail_def seqs_def del: rmatch.simps)
  then obtain b where "fst st = [CHR ''%'', CHR ''w'', CHR 0x22] @ b"
    using rmatch_Lit_prefix by blast
  then show ?thesis by simp
qed

lemma space_bare_percent:
  assumes "CHR ''%'' \<notin> set s"
  shows "re_match messagef_space (drop i s) = None" "re_match messagef_bare (drop i s) = None"
proof -
  have n: "CHR ''%'' \<notin> set (drop i s)" using assms in_set_dropD by fast
  have sp: \<open>messagef_space = Seq (Lit ''.Messagef("'') (Seq (Group 1 (StarLazy not_quote))
      (Seq (Plus (Sym Space)) (seqs cause_tail)))\<close>
    by (simp add: messagef_space_def seqs_def)
  have ba: \<open>messagef_bare = Seq (Lit ''.Messagef("'') (Seq (Group 1 (StarLazy not_quote)) (seqs cause_tail))\<close>
    by (simp add: messagef_bare_def seqs_def)
  have t1: "CHR ''%'' \<in> set (fst st)"
    if h: "st' \<in> set (rmatch (Seq (Plus (Sym Space)) (seqs cause_tail)) st)" for st st'
    using cause_tail_percent h by (rule through_seq)
  have t2: "CHR ''%'' \<in> set (fst st)"
    if h: "st' \<in> set (rmatch (Seq (Group 1 (StarLazy not_quote)) (Seq (Plus (Sym Space)) (seqs cause_tail))) st)" for st st'
    using t1 h by (rule through_seq)
  have t3: "CHR ''%'' \<in> set (fst st)"
    if h: "st' \<in> set (rmatch (Seq (Group 1 (StarLazy not_quote)) (seqs cause_tail)) st)" for st st'
    using cause_tail_percent h by (rule through_seq)
  show "re_match messagef_space (drop i s) = None"
  proof (rule ccontr)
    assume "re_match messagef_space (drop i s) \<noteq> None"
    then obtain st' where "st' \<in> set (rmatch messagef_space (drop i s, []))"
      unfolding re_match_None_iff by (cases "rmatch messagef_space (drop i s, [])") auto
    then have "CHR ''%'' \<in> set (fst (drop i s, []::groups))"
      unfolding sp using t2 by (rule through_seq [rotated])
    then show False using n by simp
  qed
  show "re_match messagef_bare (drop i s) = None"
  proof (rule ccontr)
    assume "re_match messagef_bare (drop i s) \<noteq> None"
    then obtain st' where "st' \<in> set (rmatch messagef_bare (drop i s, []))"
      unfolding re_match_None_iff by (cases "rmatch messagef_bare (drop i s, [])") auto
    then have "CHR ''%'' \<in> set (fst (drop i s, []::groups))"
      unfolding ba using t3 by (rule through_seq [rotated])
    then show False using n by simp
  qed
qed

lemma fix_line_without_percent:
  assumes "CHR ''%'' \<notin> set line"
  shows "fix_line line = line"
proof -
  have "\<not> str_in ''%w'' line"
  proof
    assume "str_in ''%w'' line"
    then obtain a b where "line = a @ ''%w'' @ b" using str_in_iff by blast
    then show False using assms by simp
  qed
  then show ?thesis by (simp add: fix_line_def)
qed

lemma lines_without_percent:
  assumes "CHR ''%'' \<notin> set s"
  shows "join [CHR 0x0A] (map fix_line (split_char (CHR 0x0A) s)) = s"
proof -
  have "fix_line l = l" if mem: "l \<in> set (split_char (CHR 0x0A) s)" for l
  proof -
    obtain a b where "s = a @ l @ b" using split_char_part [OF mem] by blast
    then have "CHR ''%'' \<notin> set l" using assms by simp
    then show ?thesis by (rule fix_line_without_percent)
  qed
  then have "map fix_line (split_char (CHR 0x0A) s) = split_char (CHR 0x0A) s"
    by (simp add: map_idI)
  then show ?thesis by (simp add: join_split_char)
qed

text \<open>
  C5, as stated, fails when the sole argument is not a plain identifier: the three
  substitutions want \<^verbatim>\<open>[a-zA-Z0-9_]+\<close> before the closing parenthesis, the line loop
  wants a second verb, and the statement is left as it is.
\<close>

theorem call_argument_left_unchanged:
  \<open>rewrite_messagef ''b.Messagef("save failed: %w", ctx.Err())''
     = ''b.Messagef("save failed: %w", ctx.Err())''\<close>
  by code_simp

text \<open>
  C5, amended. For a statement \<open>b.Messagef("msg: %w", e)\<close> in which \<open>msg\<close> holds no
  double quote and no percent sign, \<open>e\<close> is a plain identifier (letters, digits,
  underscore) and the text \<open>b\<close> before the call holds no double quote and no percent
  sign, the rewrite gives \<open>b.Message("msg").Cause(e)\<close>.
\<close>

theorem single_wrap_verb:
  assumes "CHR 0x22 \<notin> set b" "CHR ''%'' \<notin> set b"
    and "CHR 0x22 \<notin> set msg" "CHR ''%'' \<notin> set msg"
    and "e \<noteq> []" "list_all (in_cset ident_set) e"
  shows \<open>rewrite_messagef (b @ ''.Messagef("'' @ msg @ '': %w", '' @ e @ '')'')
           = b @ ''.Message("'' @ msg @ ''").Cause('' @ e @ '')''\<close>
proof -
  define r where \<open>r = b @ ''.Message("'' @ msg @ ''").Cause('' @ e @ '')''\<close>
  have "\<And>x. x \<in> set e \<Longrightarrow> x \<noteq> CHR ''%''"
    using assms(6) ident_chars(2) by (auto simp: list_all_iff)
  then have np: "CHR ''%'' \<notin> set r"
    unfolding r_def using assms(2,4) by auto
  have 1: \<open>re_sub messagef_colon cause_template (b @ ''.Messagef("'' @ msg @ '': %w", '' @ e @ '')'') = r\<close>
    unfolding r_def by (rule colon_substitution [OF assms(1,3,4,5,6)])
  have 2: "re_sub messagef_space cause_template r = r"
    by (rule re_sub_no_match) (rule space_bare_percent(1) [OF np])
  have 3: "re_sub messagef_bare cause_template r = r"
    by (rule re_sub_no_match) (rule space_bare_percent(2) [OF np])
  have \<open>pattern1 (b @ ''.Messagef("'' @ msg @ '': %w", '' @ e @ '')'') = r\<close>
    unfolding pattern1_def 1 2 3 ..
  then have \<open>rewrite_messagef (b @ ''.Messagef("'' @ msg @ '': %w", '' @ e @ '')'') = r\<close>
    unfolding rewrite_messagef_def using lines_without_percent [OF np] by simp
  then show ?thesis unfolding r_def .
qed

theorem single_wrap_verb_witness:
  \<open>CHR 0x22 \<notin> set ''b'' \<and> CHR ''%'' \<notin> set ''b''
   \<and> CHR 0x22 \<notin> set ''save failed'' \<and> CHR ''%'' \<notin> set ''save failed''
   \<and> ''err'' \<noteq> [] \<and> list_all (in_cset ident_set) ''err''
   \<and> rewrite_messagef ''b.Messagef("save failed: %w", err)'' = ''b.Message("save failed").Cause(err)''\<close>
proof -
  have h: "CHR 0x22 \<notin> set ''b''" "CHR ''%'' \<notin> set ''b''"
      "CHR 0x22 \<notin> set ''save failed''" "CHR ''%'' \<notin> set ''save failed''"
      "''err'' \<noteq> []" "list_all (in_cset ident_set) ''err''"
    by (simp_all add: ident_set_def)
  from single_wrap_verb [OF h] h show ?thesis by simp
qed

end
